theory Spec2Isabelle
  imports Main "HOL-Library.Sublist" "HOL-Library.AList"
begin

text \<open>
  The content script of the LinkedIn job filter: the class \<open>JobFilterExtension\<close>
  of \<open>content.ts\<close>, with the types of \<open>types.ts\<close>. The repository holds two
  copies of the script. They agree on \<open>processJobs\<close>, the status of a card, the
  mutation observer, the message listener and the frame of \<open>sortJobs\<close>. They
  differ in the time of a card: one copy parses the text of the time element with
  \<open>parseRelativeTime\<close>, the other builds a \<open>Date\<close> from the \<open>datetime\<close>
  attribute; and in the comparator of the policy \<open>recent\<close>, where the two signs
  for a card without a time are exchanged. This theory embeds the copy that
  defines \<open>parseRelativeTime\<close>.
\<close>

section \<open>Strings\<close>

text \<open>
  The content script works on DOM text. A JavaScript string is modelled as a
  \<^typ>\<open>string\<close>, one \<^typ>\<open>char\<close> per code unit, for the code units
  \<open>U+0000\<close> to \<open>U+00FF\<close>. In that range the white space of \<open>trim()\<close> and of the
  regular expression class \<open>\s\<close> is TAB, LF, VT, FF, CR, SPACE and NBSP; \<open>\d\<close> is
  \<open>0\<close> to \<open>9\<close>; \<open>toLowerCase()\<close> moves \<open>A\<close>-\<open>Z\<close> and the Latin-1 capitals.
\<close>

definition isWhiteSpace :: "char \<Rightarrow> bool" where
  "isWhiteSpace c = (of_char c \<in> {9, 10, 11, 12, 13, 32, 160 :: nat})"

definition isDigit :: "char \<Rightarrow> bool" where
  "isDigit c = (48 \<le> (of_char c :: nat) \<and> (of_char c :: nat) \<le> 57)"

definition toLowerChar :: "char \<Rightarrow> char" where
  "toLowerChar c =
     (let n = (of_char c :: nat)
      in if (65 \<le> n \<and> n \<le> 90) \<or> (192 \<le> n \<and> n \<le> 222 \<and> n \<noteq> 215)
         then char_of (n + 32) else c)"

definition toLowerCase :: "string \<Rightarrow> string" where
  "toLowerCase s = map toLowerChar s"

definition trim :: "string \<Rightarrow> string" where
  "trim s = rev (dropWhile isWhiteSpace (rev (dropWhile isWhiteSpace s)))"

fun startsWith :: "string \<Rightarrow> string \<Rightarrow> bool" where
  "startsWith s [] = True"
| "startsWith [] (p # ps) = False"
| "startsWith (c # cs) (p # ps) = (c = p \<and> startsWith cs ps)"

text \<open>\<open>s.includes(sub)\<close>: \<open>sub\<close> occurs in \<open>s\<close> at some offset.\<close>

fun includes_str :: "string \<Rightarrow> string \<Rightarrow> bool" where
  "includes_str [] sub = (sub = [])"
| "includes_str (c # cs) sub = (startsWith (c # cs) sub \<or> includes_str cs sub)"

text \<open>\<open>text.split('\n')\<close>: the pieces between line feeds, never an empty array.\<close>

fun split_lines :: "string \<Rightarrow> string list" where
  "split_lines [] = [[]]"
| "split_lines (c # cs) =
     (if c = CHR 0x0A then [] # split_lines cs
      else (case split_lines cs of
              [] \<Rightarrow> [[c]]
            | l # ls \<Rightarrow> (c # l) # ls))"

text \<open>\<open>parseInt(digits, 10)\<close> on a run of decimal digits.\<close>

definition parseInt :: "string \<Rightarrow> nat" where
  "parseInt ds = foldl (\<lambda>n c. 10 * n + (of_char c - 48)) 0 ds"

section \<open>The relative-time pattern\<close>

text \<open>
  \<open>/(\d+)\s+(minute|hour|day|week)s?\s+ago/i\<close>. Within the modelled code units
  the flag \<open>i\<close> makes a pattern letter match itself and its capital, which is
  \<open>toLowerChar c = p\<close> for a lower-case pattern letter \<open>p\<close>.

  \<open>startsWithCI s p\<close> matches the literal \<open>p\<close> at the head of \<open>s\<close>;
  \<open>alt_units\<close> tries the four alternatives in the order of the pattern and
  returns the matched text with the rest of the input.
\<close>

fun startsWithCI :: "string \<Rightarrow> string \<Rightarrow> bool" where
  "startsWithCI s [] = True"
| "startsWithCI [] (p # ps) = False"
| "startsWithCI (c # cs) (p # ps) = (toLowerChar c = p \<and> startsWithCI cs ps)"

fun alt_units :: "string list \<Rightarrow> string \<Rightarrow> (string \<times> string) option" where
  "alt_units [] s = None"
| "alt_units (u # us) s =
     (if startsWithCI s u then Some (take (length u) s, drop (length u) s)
      else alt_units us s)"

definition unit_names :: "string list" where
  "unit_names = [''minute'', ''hour'', ''day'', ''week'']"

text \<open>
  The pattern anchored at the head of \<open>s\<close>; the result is the pair of capture
  groups. Each quantifier is greedy and none can give a character back: a shorter
  \<open>\d+\<close> would leave a digit where \<open>\s\<close> is due, a shorter \<open>\s+\<close> would leave
  white space where a letter is due, and an \<open>s\<close> not taken by \<open>s?\<close> is no white
  space.
\<close>

definition regex_here :: "string \<Rightarrow> (string \<times> string) option" where
  "regex_here s =
     (let ds = takeWhile isDigit s;
          r1 = dropWhile isDigit s;
          r2 = dropWhile isWhiteSpace r1
      in if ds = [] \<or> takeWhile isWhiteSpace r1 = [] then None
         else (case alt_units unit_names r2 of
                 None \<Rightarrow> None
               | Some (u, r3) \<Rightarrow>
                   (let r4 = (case r3 of
                                [] \<Rightarrow> r3
                              | c # cs \<Rightarrow> if toLowerChar c = CHR ''s'' then cs else r3);
                        r5 = dropWhile isWhiteSpace r4
                    in if takeWhile isWhiteSpace r4 \<noteq> [] \<and> startsWithCI r5 ''ago''
                       then Some (ds, u) else None)))"

text \<open>\<open>timeLine.match(re)\<close> without the flag \<open>g\<close>: the match at the leftmost offset.\<close>

fun regex_match :: "string \<Rightarrow> (string \<times> string) option" where
  "regex_match [] = None"
| "regex_match (c # cs) =
     (case regex_here (c # cs) of
        Some m \<Rightarrow> Some m
      | None \<Rightarrow> regex_match cs)"

section \<open>Dates\<close>

text \<open>
  A \<open>Date\<close> holds a time value in milliseconds, or \<open>NaN\<close> when the value given
  to the constructor lies beyond \<open>8.64e15\<close> milliseconds of the epoch. The
  arithmetic is written over \<^typ>\<open>int\<close>: the double arithmetic of the source is
  exact below \<open>2^53\<close>, and a product beyond it gives an invalid date in both.
\<close>

datatype date = ValidDate int | InvalidDate

definition newDate :: "int \<Rightarrow> date" where
  "newDate t = (if \<bar>t\<bar> \<le> 8640000000000000 then ValidDate t else InvalidDate)"

definition msPerUnit :: "string \<Rightarrow> int option" where
  "msPerUnit = map_of
     [(''minute'', 60 * 1000),
      (''hour'', 60 * 60 * 1000),
      (''day'', 24 * 60 * 60 * 1000),
      (''week'', 7 * 24 * 60 * 60 * 1000)]"

text \<open>
  \<open>parseRelativeTime\<close>; \<open>now\<close> is the reading of the clock, \<open>new Date().getTime()\<close>.
  The source reads the clock in every call; the functions below that call it
  several times within one pass give every call the same reading.
\<close>

definition parseRelativeTime :: "int \<Rightarrow> string \<Rightarrow> date option" where
  "parseRelativeTime now text =
     (let lines = split_lines text;
          timeLine = (case find (\<lambda>line. includes_str line ''ago'') lines of
                        None \<Rightarrow> []
                      | Some line \<Rightarrow> trim line)
      in case regex_match timeLine of
           None \<Rightarrow> None
         | Some (m1, m2) \<Rightarrow>
             (let value = parseInt m1;
                  unit = toLowerCase m2
              in case msPerUnit unit of
                   None \<Rightarrow> Some InvalidDate
                 | Some ms \<Rightarrow> Some (newDate (now - int value * ms))))"

section \<open>The page and the extension\<close>

datatype JobStatus = Normal | Viewed | Applied

record JobCardInfo =
  status :: JobStatus
  time :: "date option"

record ExtensionSettings =
  sortBy :: string
  appliedAction :: string
  highlightViewed :: bool

record JobStats =
  total :: nat
  viewed :: nat
  applied :: nat

text \<open>
  One record holds what the class \<open>JobFilterExtension\<close> reads and writes. Job
  cards are elements, compared by reference: values of the type \<open>'e\<close>.
  \<^item> Fields of the class: \<open>settings\<close>, \<open>processedJobs\<close>, and \<open>originalOrder\<close>, a
    \<open>Map\<close> kept as an association list in insertion order.
  \<^item> The document: \<open>cards\<close> is \<open>document.querySelectorAll(CONFIG.jobCardSelector)\<close>
    in document order; \<open>stateEl c\<close> is the text content of the state element inside
    the footer of card \<open>c\<close>, \<open>None\<close> when the footer or the element is missing;
    \<open>timeEl c\<close> is the text content of the time element the three-step query of
    \<open>getJobStatus\<close> selects, \<open>None\<close> when the card has none; \<open>classList c\<close> is
    the set of class tokens of the card.
  \<^item> The browser: \<open>storage\<close> is the value under the key \<open>linkedinJobFilter\<close>,
    \<open>sent\<close> the messages given to \<open>chrome.runtime.sendMessage\<close>, \<open>pending\<close> the
    number of callbacks handed to \<open>setTimeout\<close> that have not run yet.
  The cards are taken to be children of one list element, none inside another.
\<close>

record 'e world =
  settings :: ExtensionSettings
  processedJobs :: "'e set"
  originalOrder :: "('e \<times> nat) list"
  cards :: "'e list"
  stateEl :: "'e \<Rightarrow> string option"
  timeEl :: "'e \<Rightarrow> string option"
  classList :: "'e \<Rightarrow> string set"
  storage :: "ExtensionSettings option"
  sent :: "JobStats list"
  pending :: nat

definition getJobStatus :: "int \<Rightarrow> 'e world \<Rightarrow> 'e \<Rightarrow> JobCardInfo" where
  "getJobStatus now w jobCard =
     \<lparr> status =
         (case stateEl w jobCard of
            None \<Rightarrow> Normal
          | Some textContent \<Rightarrow>
              (let txt = toLowerCase (trim textContent)
               in if includes_str txt ''viewed'' then Viewed
                  else if includes_str txt ''applied'' then Applied
                  else Normal)),
       time =
         (case timeEl w jobCard of
            None \<Rightarrow> None
          | Some timeText \<Rightarrow> parseRelativeTime now timeText) \<rparr>"

subsection \<open>processJobs\<close>

definition marker_viewed :: string where
  "marker_viewed = ''linkedin-job-filter-viewed''"

definition marker_applied :: string where
  "marker_applied = ''linkedin-job-filter-applied''"

definition marker_hidden :: string where
  "marker_hidden = ''hidden''"

text \<open>The body of the \<open>forEach\<close> of \<open>processJobs\<close>, for one card.\<close>

definition processJob :: "int \<Rightarrow> 'e \<Rightarrow> 'e world \<Rightarrow> 'e world" where
  "processJob now job w =
     (let st = status (getJobStatus now w job);
          c0 = classList w job - {marker_viewed, marker_applied, marker_hidden};
          c1 = (if st = Viewed \<and> highlightViewed (settings w)
                then insert marker_viewed c0 else c0);
          c2 = (if st = Applied
                then (if appliedAction (settings w) = ''hide'' then insert marker_hidden c1
                      else if appliedAction (settings w) = ''dim'' then insert marker_applied c1
                      else c1)
                else c1)
      in w\<lparr> classList := (classList w)(job := c2),
            processedJobs := insert job (processedJobs w) \<rparr>)"

definition updateStats :: "int \<Rightarrow> 'e world \<Rightarrow> 'e world" where
  "updateStats now w =
     w\<lparr> sent := sent w @
          [\<lparr> total = length (cards w),
             viewed = length (filter (\<lambda>job. status (getJobStatus now w job) = Viewed) (cards w)),
             applied = length (filter (\<lambda>job. status (getJobStatus now w job) = Applied) (cards w)) \<rparr>] \<rparr>"

definition processJobs :: "int \<Rightarrow> 'e world \<Rightarrow> 'e world" where
  "processJobs now w =
     updateStats now (fold (processJob now) (cards w) (w\<lparr> processedJobs := {} \<rparr>))"

subsection \<open>Sorting\<close>

text \<open>
  \<open>Array.prototype.sort(comparefn)\<close> is stable and reads only the sign of what
  \<open>comparefn\<close> returns, \<open>NaN\<close> counting as zero. A comparator is modelled as a
  function to \<^typ>\<open>int\<close> with that sign: \<open>-Infinity\<close> is \<open>-1\<close>, \<open>Infinity\<close> is
  \<open>1\<close>, \<open>NaN\<close> is \<open>0\<close>. The sort is an insertion sort that puts an element
  before the first one it does not exceed, which is the stable order whenever the
  comparator is consistent. The comparators of \<open>sortJobs\<close> are consistent, but for
  the policy \<open>recent\<close> on a page where a time text gives an invalid date; there
  the standard leaves the order to the engine.
\<close>

fun insert_sorted :: "('a \<Rightarrow> 'a \<Rightarrow> int) \<Rightarrow> 'a \<Rightarrow> 'a list \<Rightarrow> 'a list" where
  "insert_sorted cmp x [] = [x]"
| "insert_sorted cmp x (y # ys) =
     (if cmp x y \<le> 0 then x # y # ys else y # insert_sorted cmp x ys)"

definition array_sort :: "('a \<Rightarrow> 'a \<Rightarrow> int) \<Rightarrow> 'a list \<Rightarrow> 'a list" where
  "array_sort cmp xs = foldr (insert_sorted cmp) xs []"

text \<open>
  \<open>jobList.appendChild(job)\<close> moves the card to the end of the list. An element
  stands once in the document, so the list of cards is distinct.
\<close>

definition appendChild :: "'e \<Rightarrow> 'e list \<Rightarrow> 'e list" where
  "appendChild job cs = remove1 job cs @ [job]"

definition captureOriginalOrder :: "'e world \<Rightarrow> 'e world" where
  "captureOriginalOrder w =
     w\<lparr> originalOrder :=
          fold (\<lambda>(index, job) m. AList.update job index m)
            (enumerate 0 (cards w)) (originalOrder w) \<rparr>"

text \<open>
  The comparator of the branch \<open>sortBy === 'default'\<close>:
  \<open>(originalOrder.get(a) ?? Infinity) - (originalOrder.get(b) ?? Infinity)\<close>.
\<close>

definition cmp_default :: "('e \<times> nat) list \<Rightarrow> 'e \<Rightarrow> 'e \<Rightarrow> int" where
  "cmp_default ledger a b =
     (case (map_of ledger a, map_of ledger b) of
        (Some indexA, Some indexB) \<Rightarrow> int indexA - int indexB
      | (Some indexA, None) \<Rightarrow> - 1
      | (None, Some indexB) \<Rightarrow> 1
      | (None, None) \<Rightarrow> 0)"

definition getTime :: "date \<Rightarrow> int option" where
  "getTime d = (case d of ValidDate t \<Rightarrow> Some t | InvalidDate \<Rightarrow> None)"

text \<open>
  The comparator of the second \<open>jobs.sort\<close>, with its \<open>switch\<close> on the policy.
  Under \<open>recent\<close> a card without a time goes before a card with one, and two
  cards with a time compare by \<open>getTime()\<close>, a difference that is \<open>NaN\<close> when a
  date is invalid.
\<close>

definition cmp_policy :: "int \<Rightarrow> 'e world \<Rightarrow> 'e \<Rightarrow> 'e \<Rightarrow> int" where
  "cmp_policy now w a b =
     (let statusA = getJobStatus now w a;
          statusB = getJobStatus now w b;
          policy = sortBy (settings w)
      in if policy = ''recent'' then
           (case (time statusA, time statusB) of
              (None, None) \<Rightarrow> 0
            | (None, Some tb) \<Rightarrow> - 1
            | (Some ta, None) \<Rightarrow> 1
            | (Some ta, Some tb) \<Rightarrow>
                (case (getTime ta, getTime tb) of
                   (Some x, Some y) \<Rightarrow> x - y
                 | _ \<Rightarrow> 0))
         else if policy = ''viewed-first'' then
           (if status statusA = Viewed \<and> status statusB \<noteq> Viewed then - 1
            else if status statusA \<noteq> Viewed \<and> status statusB = Viewed then 1
            else 0)
         else if policy = ''viewed-last'' then
           (if status statusA = Viewed \<and> status statusB \<noteq> Viewed then 1
            else if status statusA \<noteq> Viewed \<and> status statusB = Viewed then - 1
            else 0)
         else 0)"

definition sortJobs :: "int \<Rightarrow> 'e world \<Rightarrow> 'e world" where
  "sortJobs now w =
     (if cards w = [] then w
      else
        (let w1 = (if originalOrder w = [] then captureOriginalOrder w else w)
         in if sortBy (settings w1) = ''default'' then
              (let sortedJobs = array_sort (cmp_default (originalOrder w1)) (cards w1)
               in w1\<lparr> cards := fold appendChild sortedJobs (cards w1) \<rparr>)
            else
              (let sortedJobs = array_sort (cmp_policy now w1) (cards w1)
               in if sortBy (settings w1) = ''recent''
                  then w1\<lparr> cards := fold appendChild (rev sortedJobs) (cards w1) \<rparr>
                  else w1\<lparr> cards := fold appendChild sortedJobs (cards w1) \<rparr>)))"

subsection \<open>The mutation observer\<close>

record node =
  nodeType :: nat
  matchesJobCard :: bool

record MutationRecord =
  mtype :: string
  addedNodes :: "node list"

definition shouldProcess :: "MutationRecord list \<Rightarrow> bool" where
  "shouldProcess mutations =
     list_ex (\<lambda>mutation. mtype mutation = ''childList'' \<and>
        list_ex (\<lambda>n. nodeType n = 1 \<and> matchesJobCard n) (addedNodes mutation)) mutations"

text \<open>The callback given to \<open>new MutationObserver\<close>: it may hand one callback to \<open>setTimeout\<close>.\<close>

definition observerCallback :: "MutationRecord list \<Rightarrow> 'e world \<Rightarrow> 'e world" where
  "observerCallback mutations w =
     (if shouldProcess mutations then w\<lparr> pending := pending w + 1 \<rparr> else w)"

text \<open>The body of the callback handed to \<open>setTimeout\<close>.\<close>

definition reprocess :: "int \<Rightarrow> 'e world \<Rightarrow> 'e world" where
  "reprocess now w =
     (let w1 = processJobs now w
      in if sortBy (settings w1) \<noteq> ''default'' then sortJobs now w1 else w1)"

text \<open>
  The page as the extension sees it after \<open>init\<close>: the observer delivers a batch of
  mutation records, or a pending timer runs, at the clock reading given. The
  delay of 100 milliseconds is not modelled: a pending timer runs at any later
  place in the sequence of events.
\<close>

datatype event = Mutations "MutationRecord list" | TimerFires int

fun step :: "event \<Rightarrow> 'e world \<Rightarrow> 'e world" where
  "step (Mutations mutations) w = observerCallback mutations w"
| "step (TimerFires now) w =
     (if pending w = 0 then w else reprocess now (w\<lparr> pending := pending w - 1 \<rparr>))"

definition run :: "event list \<Rightarrow> 'e world \<Rightarrow> 'e world" where
  "run evs w = fold step evs w"

subsection \<open>The message listener\<close>

record MessageRequest =
  rtype :: string
  rsettings :: "ExtensionSettings option"

record MessageResponse =
  success :: "bool option"
  rtotal :: "nat option"
  rviewed :: "nat option"
  rapplied :: "nat option"

text \<open>
  The listener of \<open>chrome.runtime.onMessage\<close>. The result is the new state with
  the calls of \<open>sendResponse\<close>, in order. The payload of \<open>applySettings\<close> has every
  field of \<open>ExtensionSettings\<close>, so the spread of it over the old settings is the
  payload. The listener returns \<open>true\<close> on every path.
\<close>

definition onMessage :: "int \<Rightarrow> MessageRequest \<Rightarrow> 'e world \<Rightarrow> 'e world \<times> MessageResponse list" where
  "onMessage now request w =
     (let (w1, r1) =
            (case rsettings request of
               Some payload \<Rightarrow>
                 if rtype request = ''applySettings'' then
                   (let wa = w\<lparr> settings := payload \<rparr>;
                        wb = wa\<lparr> storage := Some (settings wa) \<rparr>;
                        wc = processJobs now wb;
                        wd = (if sortBy (settings wc) \<noteq> ''default'' then sortJobs now wc else wc)
                    in (wd, [\<lparr> success = Some True, rtotal = None, rviewed = None, rapplied = None \<rparr>]))
                 else (w, [])
             | None \<Rightarrow> (w, []))
      in if rtype request = ''getStats'' then
           (w1, r1 @
             [\<lparr> success = None,
                rtotal = Some (length (cards w1)),
                rviewed = Some (length (filter (\<lambda>job. status (getJobStatus now w1 job) = Viewed) (cards w1))),
                rapplied = Some (length (filter (\<lambda>job. status (getJobStatus now w1 job) = Applied) (cards w1))) \<rparr>])
         else (w1, r1))"

section \<open>Notions used in the statements\<close>

text \<open>
  The three class tokens \<open>processJobs\<close> manages, and the tokens the settings and
  the status of a card call for.
\<close>

definition markers :: "string set" where
  "markers = {marker_viewed, marker_applied, marker_hidden}"

definition dictated :: "ExtensionSettings \<Rightarrow> JobStatus \<Rightarrow> string set" where
  "dictated cfg st =
     (if st = Viewed \<and> highlightViewed cfg then {marker_viewed} else {}) \<union>
     (if st = Applied \<and> appliedAction cfg = ''hide'' then {marker_hidden} else {}) \<union>
     (if st = Applied \<and> appliedAction cfg = ''dim'' then {marker_applied} else {})"

text \<open>
  The pattern of the relative time, stated without reference to a matching
  procedure. \<open>is_match m v u\<close>: the text \<open>m\<close> is a run of decimal digits denoting
  \<open>v\<close>, white space, one of the four unit words in any mixture of cases (\<open>u\<close> is
  the word in lower case), an optional \<open>s\<close> or \<open>S\<close>, white space, and \<open>ago\<close> in
  any mixture of cases. \<open>occurs_at s k v u\<close>: such a text stands in \<open>s\<close> at offset
  \<open>k\<close>. \<open>occurs_first s v u\<close>: it stands there and no occurrence starts further
  left.
\<close>

definition is_match :: "string \<Rightarrow> nat \<Rightarrow> string \<Rightarrow> bool" where
  "is_match m v u \<longleftrightarrow>
     (\<exists>ds w1 uw sf w2 ag.
        m = ds @ w1 @ uw @ sf @ w2 @ ag \<and>
        ds \<noteq> [] \<and> list_all isDigit ds \<and> parseInt ds = v \<and>
        w1 \<noteq> [] \<and> list_all isWhiteSpace w1 \<and>
        u \<in> set unit_names \<and> toLowerCase uw = u \<and>
        (sf = [] \<or> toLowerCase sf = ''s'') \<and>
        w2 \<noteq> [] \<and> list_all isWhiteSpace w2 \<and>
        toLowerCase ag = ''ago'')"

definition occurs_at :: "string \<Rightarrow> nat \<Rightarrow> nat \<Rightarrow> string \<Rightarrow> bool" where
  "occurs_at s k v u \<longleftrightarrow> k \<le> length s \<and> (\<exists>m post. drop k s = m @ post \<and> is_match m v u)"

definition occurs_first :: "string \<Rightarrow> nat \<Rightarrow> string \<Rightarrow> bool" where
  "occurs_first s v u \<longleftrightarrow>
     (\<exists>k. occurs_at s k v u \<and> (\<forall>j v' u'. j < k \<longrightarrow> \<not> occurs_at s j v' u'))"

definition ledger_ready :: "'e world \<Rightarrow> 'e world" where
  "ledger_ready w = (if originalOrder w = [] then captureOriginalOrder w else w)"

text \<open>
  Two cards have equal rank under the active policy when the comparator the sort
  runs with returns zero for them.
\<close>

definition active_cmp :: "int \<Rightarrow> 'e world \<Rightarrow> 'e \<Rightarrow> 'e \<Rightarrow> int" where
  "active_cmp now w =
     (if sortBy (settings w) = ''default'' then cmp_default (originalOrder (ledger_ready w))
      else cmp_policy now w)"


text \<open>
  The host page appends a batch of new cards to the list; recording a batch is the
  sort that follows its discovery.
\<close>

definition discover :: "'e list \<Rightarrow> 'e world \<Rightarrow> 'e world" where
  "discover batch w = w\<lparr> cards := cards w @ batch \<rparr>"

definition record_batches :: "int \<Rightarrow> 'e list list \<Rightarrow> 'e world \<Rightarrow> 'e world" where
  "record_batches now batches w = fold (\<lambda>batch v. sortJobs now (discover batch v)) batches w"

section \<open>An example page\<close>

text \<open>
  Four cards: card 0 has no state element, card 1 is viewed, card 2 is applied and
  still carries the dim marker of an earlier pass, card 3 has no state element;
  card 2 has no time element.
\<close>

definition demo_world :: "nat world" where
  "demo_world =
     \<lparr> settings = \<lparr> sortBy = ''recent'', appliedAction = ''hide'', highlightViewed = True \<rparr>,
       processedJobs = {},
       originalOrder = [],
       cards = [0, 1, 2, 3],
       stateEl = (\<lambda>c. if c = 1 then Some '' Viewed '' else if c = 2 then Some ''Applied'' else None),
       timeEl = (\<lambda>c. if c = 0 then Some ''2 hours ago''
                      else if c = 1 then Some ''4 hours ago''
                      else if c = 2 then None
                      else Some ''10 minutes ago''),
       classList = (\<lambda>c. if c = 2 then {marker_applied, ''job-card''} else {}),
       storage = None,
       sent = [],
       pending = 0 \<rparr>"

text \<open>
  Two cards without state and time elements, and two recorded cards standing in
  the reverse of the recorded order; the policy is a parameter.
\<close>

definition tie_world :: "string \<Rightarrow> nat world" where
  "tie_world policy =
     \<lparr> settings = \<lparr> sortBy = policy, appliedAction = ''dim'', highlightViewed = True \<rparr>,
       processedJobs = {},
       originalOrder = [],
       cards = [0, 1],
       stateEl = (\<lambda>c. None),
       timeEl = (\<lambda>c. None),
       classList = (\<lambda>c. {}),
       storage = None,
       sent = [],
       pending = 0 \<rparr>"

definition shuffled_world :: "string \<Rightarrow> nat world" where
  "shuffled_world policy =
     \<lparr> settings = \<lparr> sortBy = policy, appliedAction = ''dim'', highlightViewed = True \<rparr>,
       processedJobs = {},
       originalOrder = [(0, 0), (1, 1)],
       cards = [1, 0],
       stateEl = (\<lambda>c. None),
       timeEl = (\<lambda>c. None),
       classList = (\<lambda>c. {}),
       storage = None,
       sent = [],
       pending = 0 \<rparr>"


section \<open>Text and classification\<close>

lemma startsWith_prefix: "startsWith s p \<longleftrightarrow> prefix p s"
  by (induction s p rule: startsWith.induct) auto

lemma includes_str_sublist: "includes_str s sub \<longleftrightarrow> sublist sub s"
  by (induction s) (simp_all add: startsWith_prefix sublist_Cons_right)

lemma marker_distinct:
  "marker_viewed \<noteq> marker_applied" "marker_viewed \<noteq> marker_hidden"
  "marker_applied \<noteq> marker_hidden"
  by (simp_all add: marker_viewed_def marker_applied_def marker_hidden_def)

lemma dictated_markers: "dictated cfg st \<subseteq> markers"
  by (auto simp: dictated_def markers_def)

lemma getJobStatus_cong:
  "stateEl w' = stateEl w \<Longrightarrow> timeEl w' = timeEl w \<Longrightarrow> getJobStatus now w' = getJobStatus now w"
  by (rule ext) (simp add: getJobStatus_def)

lemma getJobStatus_update [simp]:
  "getJobStatus now (w\<lparr> processedJobs := pj \<rparr>) = getJobStatus now w"
  "getJobStatus now (w\<lparr> classList := cl \<rparr>) = getJobStatus now w"
  "getJobStatus now (w\<lparr> originalOrder := oo \<rparr>) = getJobStatus now w"
  "getJobStatus now (w\<lparr> cards := cs \<rparr>) = getJobStatus now w"
  "getJobStatus now (w\<lparr> sent := ms \<rparr>) = getJobStatus now w"
  "getJobStatus now (w\<lparr> pending := n \<rparr>) = getJobStatus now w"
  "getJobStatus now (w\<lparr> storage := st \<rparr>) = getJobStatus now w"
  "getJobStatus now (w\<lparr> settings := cfg \<rparr>) = getJobStatus now w"
  by (rule ext, simp add: getJobStatus_def)+

lemma processJob_frame [simp]:
  "stateEl (processJob now j w) = stateEl w"
  "timeEl (processJob now j w) = timeEl w"
  "settings (processJob now j w) = settings w"
  "cards (processJob now j w) = cards w"
  "sent (processJob now j w) = sent w"
  "originalOrder (processJob now j w) = originalOrder w"
  "pending (processJob now j w) = pending w"
  "storage (processJob now j w) = storage w"
  by (simp_all add: processJob_def Let_def)

lemma processJob_classList:
  "classList (processJob now j w) c =
     (if c = j then (classList w c - markers) \<union> dictated (settings w) (status (getJobStatus now w c))
      else classList w c)"
  by (auto simp: processJob_def Let_def markers_def dictated_def)

lemma fold_processJob_frame [simp]:
  "stateEl (fold (processJob now) js w) = stateEl w"
  "timeEl (fold (processJob now) js w) = timeEl w"
  "settings (fold (processJob now) js w) = settings w"
  "cards (fold (processJob now) js w) = cards w"
  "sent (fold (processJob now) js w) = sent w"
  "originalOrder (fold (processJob now) js w) = originalOrder w"
  "pending (fold (processJob now) js w) = pending w"
  "storage (fold (processJob now) js w) = storage w"
  by (induction js arbitrary: w; simp)+

lemma fold_processJob_classList:
  "classList (fold (processJob now) js w) c =
     (if c \<in> set js
      then (classList w c - markers) \<union> dictated (settings w) (status (getJobStatus now w c))
      else classList w c)"
proof (induction js arbitrary: w)
  case Nil
  show ?case by simp
next
  case (Cons j js)
  have st: "getJobStatus now (processJob now j w) = getJobStatus now w"
    by (rule getJobStatus_cong) simp_all
  show ?case
    using dictated_markers [of "settings w" "status (getJobStatus now w c)"]
    by (auto simp: Cons.IH st processJob_classList)
qed

lemma processJobs_frame [simp]:
  "stateEl (processJobs now w) = stateEl w"
  "timeEl (processJobs now w) = timeEl w"
  "settings (processJobs now w) = settings w"
  "cards (processJobs now w) = cards w"
  "originalOrder (processJobs now w) = originalOrder w"
  "pending (processJobs now w) = pending w"
  "storage (processJobs now w) = storage w"
  by (simp_all add: processJobs_def updateStats_def)


lemma processJobs_classList:
  "classList (processJobs now w) c =
     (if c \<in> set (cards w)
      then (classList w c - markers) \<union> dictated (settings w) (status (getJobStatus now w c))
      else classList w c)"
  by (simp add: processJobs_def updateStats_def fold_processJob_classList)

lemma status_now: "status (getJobStatus now w c) = status (getJobStatus now' w c)"
  by (simp add: getJobStatus_def)

lemma demo_world_simps [simp]:
  "settings demo_world = \<lparr> sortBy = ''recent'', appliedAction = ''hide'', highlightViewed = True \<rparr>"
  "cards demo_world = [0, 1, 2, 3]"
  "originalOrder demo_world = []"
  "stateEl demo_world = (\<lambda>c. if c = 1 then Some '' Viewed '' else if c = 2 then Some ''Applied'' else None)"
  "classList demo_world = (\<lambda>c. if c = 2 then {marker_applied, ''job-card''} else {})"
  "sent demo_world = []"
  "pending demo_world = 0"
  by (simp_all add: demo_world_def)

lemma demo_status:
  "status (getJobStatus now demo_world 1) = Viewed"
  "status (getJobStatus now demo_world 2) = Applied"
  "status (getJobStatus now demo_world 0) = Normal"
  by (simp_all add: getJobStatus_def toLowerCase_def toLowerChar_def trim_def isWhiteSpace_def
        char_of_def bit_Suc_0_iff)

section \<open>Classification (claim C8)\<close>

text \<open>
  Claim C8. The status of a card is \<open>viewed\<close> when the trimmed, lower-cased text
  of its state element contains \<open>viewed\<close>; otherwise \<open>applied\<close> when that text
  contains \<open>applied\<close>; otherwise \<open>normal\<close>. A card without a state element is
  \<open>normal\<close>, and the text \<open>" Viewed "\<close> gives \<open>viewed\<close>. Containment is
  \<^const>\<open>sublist\<close>: the word occurs as a contiguous piece.
\<close>

theorem classification_status:
  "(stateEl w c = None \<longrightarrow> status (getJobStatus now w c) = Normal) \<and>
   (\<forall>t. stateEl w c = Some t \<longrightarrow>
      status (getJobStatus now w c) =
        (if sublist ''viewed'' (toLowerCase (trim t)) then Viewed
         else if sublist ''applied'' (toLowerCase (trim t)) then Applied
         else Normal)) \<and>
   (stateEl w c = Some '' Viewed '' \<longrightarrow> status (getJobStatus now w c) = Viewed)"
proof (intro conjI allI impI)
  assume "stateEl w c = None"
  then show "status (getJobStatus now w c) = Normal"
    by (simp add: getJobStatus_def)
next
  fix t assume "stateEl w c = Some t"
  then show "status (getJobStatus now w c) =
        (if sublist ''viewed'' (toLowerCase (trim t)) then Viewed
         else if sublist ''applied'' (toLowerCase (trim t)) then Applied
         else Normal)"
    by (simp add: getJobStatus_def Let_def includes_str_sublist)
next
  assume "stateEl w c = Some '' Viewed ''"
  then show "status (getJobStatus now w c) = Viewed"
    by (simp add: getJobStatus_def toLowerCase_def toLowerChar_def trim_def isWhiteSpace_def
          char_of_def bit_Suc_0_iff)
qed

theorem classification_status_witness:
  "status (getJobStatus 0 demo_world 0) = Normal \<and>
   status (getJobStatus 0 demo_world 1) = Viewed"
proof -
  have a: "stateEl demo_world 0 = None" and b: "stateEl demo_world 1 = Some '' Viewed ''"
    by simp_all
  from a classification_status [of demo_world 0 0]
  have "status (getJobStatus 0 demo_world 0) = Normal" by blast
  moreover from b classification_status [of demo_world 1 0]
  have "status (getJobStatus 0 demo_world 1) = Viewed" by blast
  ultimately show ?thesis by simp
qed

section \<open>Markers of the applied axis (claim C9)\<close>

text \<open>
  Claim C9. After a pass of \<open>processJobs\<close> no card carries the hidden marker
  together with the dim marker. An applied card carries the hidden marker alone
  under \<open>appliedAction = hide\<close>, the dim marker alone under \<open>dim\<close>, and neither
  under any other action; a card that is not applied carries neither.
\<close>

theorem applied_markers_exclusive:
  assumes "c \<in> set (cards w)"
  shows "\<not> (marker_hidden \<in> classList (processJobs now w) c \<and>
            marker_applied \<in> classList (processJobs now w) c) \<and>
         (status (getJobStatus now w c) = Applied \<and> appliedAction (settings w) = ''hide'' \<longrightarrow>
            marker_hidden \<in> classList (processJobs now w) c \<and>
            marker_applied \<notin> classList (processJobs now w) c) \<and>
         (status (getJobStatus now w c) = Applied \<and> appliedAction (settings w) = ''dim'' \<longrightarrow>
            marker_applied \<in> classList (processJobs now w) c \<and>
            marker_hidden \<notin> classList (processJobs now w) c) \<and>
         (status (getJobStatus now w c) \<noteq> Applied \<or>
            (appliedAction (settings w) \<noteq> ''hide'' \<and> appliedAction (settings w) \<noteq> ''dim'') \<longrightarrow>
            marker_applied \<notin> classList (processJobs now w) c \<and>
            marker_hidden \<notin> classList (processJobs now w) c)"
  using assms marker_distinct
  by (auto simp: processJobs_classList markers_def dictated_def)

theorem applied_markers_exclusive_witness:
  "marker_hidden \<in> classList (processJobs 0 demo_world) 2 \<and>
   marker_applied \<notin> classList (processJobs 0 demo_world) 2"
  using applied_markers_exclusive [of 2 demo_world 0] demo_status(2) [of 0]
  by simp

section \<open>The pass is idempotent and forgets history (claim C10)\<close>

text \<open>
  Claim C10. A second pass of \<open>processJobs\<close> over an unchanged page with the same
  settings leaves every class list as the first pass left it. After one pass the
  three markers on a card are exactly those its present status and the settings
  call for, whatever markers it carried before, and its other class tokens are
  untouched.
\<close>

theorem processJobs_idempotent:
  "classList (processJobs now' (processJobs now w)) = classList (processJobs now w) \<and>
   (\<forall>c \<in> set (cards w).
      classList (processJobs now w) c \<inter> {marker_viewed, marker_applied, marker_hidden} =
        dictated (settings w) (status (getJobStatus now w c)) \<and>
      classList (processJobs now w) c - {marker_viewed, marker_applied, marker_hidden} =
        classList w c - {marker_viewed, marker_applied, marker_hidden})"
proof (intro conjI ballI)
  show "classList (processJobs now' (processJobs now w)) = classList (processJobs now w)"
  proof (rule ext)
    fix c
    have st: "getJobStatus now' (processJobs now w) = getJobStatus now' w"
      by (rule getJobStatus_cong) simp_all
    show "classList (processJobs now' (processJobs now w)) c = classList (processJobs now w) c"
      using dictated_markers [of "settings w" "status (getJobStatus now w c)"]
        status_now [of now w c now']
      by (auto simp: processJobs_classList st)
  qed
next
  fix c assume "c \<in> set (cards w)"
  then show "classList (processJobs now w) c \<inter> {marker_viewed, marker_applied, marker_hidden} =
        dictated (settings w) (status (getJobStatus now w c))"
    using dictated_markers [of "settings w" "status (getJobStatus now w c)"]
    by (auto simp: processJobs_classList markers_def)
next
  fix c assume "c \<in> set (cards w)"
  then show "classList (processJobs now w) c - {marker_viewed, marker_applied, marker_hidden} =
        classList w c - {marker_viewed, marker_applied, marker_hidden}"
    using dictated_markers [of "settings w" "status (getJobStatus now w c)"]
    by (auto simp: processJobs_classList markers_def)
qed

theorem processJobs_idempotent_witness:
  "classList (processJobs 1 (processJobs 0 demo_world)) = classList (processJobs 0 demo_world) \<and>
   classList (processJobs 0 demo_world) 2 \<inter> {marker_viewed, marker_applied, marker_hidden} = {marker_hidden} \<and>
   classList (processJobs 0 demo_world) 2 - {marker_viewed, marker_applied, marker_hidden} = {''job-card''}"
  using processJobs_idempotent [of 1 0 demo_world] demo_status(2) [of 0] marker_distinct
  by (auto simp: dictated_def marker_viewed_def marker_applied_def marker_hidden_def)

section \<open>The pattern and the matcher\<close>

text \<open>The equations that evaluate \<open>parseRelativeTime\<close> on a literal text.\<close>

lemmas eval_parse =
  parseRelativeTime_def regex_here_def unit_names_def isDigit_def isWhiteSpace_def
  toLowerChar_def toLowerCase_def trim_def parseInt_def msPerUnit_def char_of_def bit_Suc_0_iff

lemmas eval_here = regex_here_def unit_names_def isDigit_def isWhiteSpace_def
  toLowerChar_def toLowerCase_def parseInt_def char_of_def bit_Suc_0_iff Let_def

lemma ws_not_digit: "isWhiteSpace c \<Longrightarrow> \<not> isDigit c"
  by (auto simp: isWhiteSpace_def isDigit_def)

lemma ws_lower: "isWhiteSpace c \<Longrightarrow> toLowerChar c = c"
  by (auto simp: isWhiteSpace_def toLowerChar_def)

lemma lower_not_ws: "toLowerChar c = p \<Longrightarrow> \<not> isWhiteSpace p \<Longrightarrow> \<not> isWhiteSpace c"
  using ws_lower by auto

lemma letters_not_ws:
  "\<not> isWhiteSpace CHR ''m''" "\<not> isWhiteSpace CHR ''h''" "\<not> isWhiteSpace CHR ''d''"
  "\<not> isWhiteSpace CHR ''w''" "\<not> isWhiteSpace CHR ''s''" "\<not> isWhiteSpace CHR ''a''"
  by (simp_all add: isWhiteSpace_def)

lemma takeWhile_split:
  "list_all P xs \<Longrightarrow> ys = [] \<or> \<not> P (hd ys) \<Longrightarrow>
   takeWhile P (xs @ ys) = xs \<and> dropWhile P (xs @ ys) = ys"
  by (cases ys) (auto simp: list_all_iff)

lemma startsWithCI_iff:
  "startsWithCI s p \<longleftrightarrow> length p \<le> length s \<and> toLowerCase (take (length p) s) = p"
  by (induction s p rule: startsWithCI.induct) (auto simp: toLowerCase_def)

lemma startsWithCI_first: "startsWithCI s (p # ps) \<Longrightarrow> s \<noteq> [] \<and> toLowerChar (hd s) = p"
  by (cases s) auto

lemma startsWithCI_self: "startsWithCI (x @ r) (toLowerCase x)"
  by (induction x) (simp_all add: toLowerCase_def)

lemma alt_units_sound:
  "alt_units us s = Some (x, r) \<Longrightarrow> s = x @ r \<and> toLowerCase x \<in> set us"
proof (induction us)
  case Nil
  then show ?case by simp
next
  case (Cons u us)
  show ?case
  proof (cases "startsWithCI s u")
    case True
    with Cons.prems have "x = take (length u) s" "r = drop (length u) s"
      by simp_all
    with True show ?thesis
      by (simp add: startsWithCI_iff)
  next
    case False
    with Cons show ?thesis by simp
  qed
qed

lemma unit_word:
  assumes "u \<in> set unit_names" "toLowerCase uw = u"
  shows "uw \<noteq> []" "\<not> isWhiteSpace (hd uw)" "alt_units unit_names (uw @ r) = Some (uw, r)"
proof -
  show ne: "uw \<noteq> []"
    using assms by (auto simp: unit_names_def toLowerCase_def)
  have h: "toLowerChar (hd uw) = hd u"
    using assms(2) ne by (cases uw) (auto simp: toLowerCase_def)
  have hdu: "hd u = CHR ''m'' \<or> hd u = CHR ''h'' \<or> hd u = CHR ''d'' \<or> hd u = CHR ''w''"
    using assms(1) by (auto simp: unit_names_def)
  show "\<not> isWhiteSpace (hd uw)"
    using h hdu lower_not_ws [of "hd uw" "hd u"] letters_not_ws by metis
  have self: "startsWithCI (uw @ r) u"
    using startsWithCI_self [of uw r] assms(2) by simp
  have other: "\<not> startsWithCI (uw @ r) (p # ps)" if "p \<noteq> hd u" for p ps
    using startsWithCI_first [of "uw @ r" p ps] h ne that by auto
  have len: "length uw = length u"
    using assms(2) by (auto simp: toLowerCase_def)
  show "alt_units unit_names (uw @ r) = Some (uw, r)"
    using assms(1) self len other
    by (auto simp: unit_names_def)
qed



lemma regex_here_complete:
  assumes "is_match m v u"
  shows "\<exists>ds uw. regex_here (m @ post) = Some (ds, uw) \<and> parseInt ds = v \<and> toLowerCase uw = u"
proof -
  from assms obtain ds w1 uw sf w2 ag where
    m: "m = ds @ w1 @ uw @ sf @ w2 @ ag" and
    ds: "ds \<noteq> []" "list_all isDigit ds" "parseInt ds = v" and
    w1: "w1 \<noteq> []" "list_all isWhiteSpace w1" and
    u: "u \<in> set unit_names" "toLowerCase uw = u" and
    sf: "sf = [] \<or> toLowerCase sf = ''s''" and
    w2: "w2 \<noteq> []" "list_all isWhiteSpace w2" and
    ag: "toLowerCase ag = ''ago''"
    unfolding is_match_def by blast
  define r1 where "r1 = w1 @ uw @ sf @ w2 @ ag @ post"
  define r2 where "r2 = uw @ sf @ w2 @ ag @ post"
  define r3 where "r3 = sf @ w2 @ ag @ post"
  define r4 where "r4 = w2 @ ag @ post"
  define r5 where "r5 = ag @ post"
  have hw1: "isWhiteSpace (hd w1)"
    using w1 by (cases w1) simp_all
  have hw2: "isWhiteSpace (hd w2)"
    using w2 by (cases w2) simp_all
  have "\<not> isDigit (hd r1)"
    using hw1 w1(1) by (simp add: r1_def ws_not_digit)
  then have t1: "takeWhile isDigit (ds @ r1) = ds" "dropWhile isDigit (ds @ r1) = r1"
    using takeWhile_split [of isDigit ds r1] ds(2) by simp_all
  have "\<not> isWhiteSpace (hd r2)"
    using unit_word(1,2) [OF u] by (simp add: r2_def)
  then have t2: "takeWhile isWhiteSpace r1 = w1" "dropWhile isWhiteSpace r1 = r2"
    using takeWhile_split [of isWhiteSpace w1 r2] w1(2) by (simp_all add: r1_def r2_def)
  have alt: "alt_units unit_names r2 = Some (uw, r3)"
    unfolding r2_def r3_def by (rule unit_word(3) [OF u])
  have s: "(case r3 of [] \<Rightarrow> r3 | c # cs \<Rightarrow> if toLowerChar c = CHR ''s'' then cs else r3) = r4"
  proof (cases "sf = []")
    case True
    obtain c cs where c: "w2 = c # cs"
      using w2(1) by (cases w2) auto
    then have "toLowerChar c \<noteq> CHR ''s''"
      using hw2 ws_lower [of c] letters_not_ws(5) by auto
    with True c show ?thesis
      by (simp add: r3_def r4_def)
  next
    case False
    with sf have "map toLowerChar sf = [CHR ''s'']"
      by (simp add: toLowerCase_def)
    then obtain c where "sf = [c]" "toLowerChar c = CHR ''s''"
      by (cases sf) auto
    then show ?thesis
      by (simp add: r3_def r4_def)
  qed
  have agne: "ag \<noteq> []" and "toLowerChar (hd ag) = CHR ''a''"
    using ag by (auto simp: toLowerCase_def map_eq_Cons_conv)
  then have "\<not> isWhiteSpace (hd r5)"
    using lower_not_ws letters_not_ws(6) by (simp add: r5_def)
  then have t3: "takeWhile isWhiteSpace r4 = w2" "dropWhile isWhiteSpace r4 = r5"
    using takeWhile_split [of isWhiteSpace w2 r5] w2(2) by (simp_all add: r4_def r5_def)
  have ago: "startsWithCI r5 ''ago''"
    using startsWithCI_self [of ag post] ag by (simp add: r5_def)
  have "m @ post = ds @ r1"
    by (simp add: m r1_def)
  then have "regex_here (m @ post) = Some (ds, uw)"
    by (simp add: regex_here_def Let_def t1 t2 alt s t3 ago ds(1) w1(1) w2(1))
  with ds(3) u(2) show ?thesis by blast
qed

lemma regex_here_sound:
  assumes "regex_here s = Some (ds, uw)"
  shows "\<exists>m post. s = m @ post \<and> is_match m (parseInt ds) (toLowerCase uw)"
proof -
  define d0 where "d0 = takeWhile isDigit s"
  define r1 where "r1 = dropWhile isDigit s"
  define w1 where "w1 = takeWhile isWhiteSpace r1"
  define r2 where "r2 = dropWhile isWhiteSpace r1"
  have c1: "d0 \<noteq> [] \<and> w1 \<noteq> []"
  proof (rule ccontr)
    assume "\<not> (d0 \<noteq> [] \<and> w1 \<noteq> [])"
    then have "regex_here s = None"
      unfolding regex_here_def Let_def d0_def w1_def r1_def by auto
    with assms show False by simp
  qed
  then have eq1: "regex_here s =
      (case alt_units unit_names r2 of
         None \<Rightarrow> None
       | Some (u, r3) \<Rightarrow>
           (let r4 = (case r3 of [] \<Rightarrow> r3 | c # cs \<Rightarrow> if toLowerChar c = CHR ''s'' then cs else r3);
                r5 = dropWhile isWhiteSpace r4
            in if takeWhile isWhiteSpace r4 \<noteq> [] \<and> startsWithCI r5 ''ago''
               then Some (d0, u) else None))"
    unfolding regex_here_def d0_def w1_def r1_def r2_def by (simp add: Let_def)
  obtain u0 r3 where alt: "alt_units unit_names r2 = Some (u0, r3)"
    using assms eq1 by (cases "alt_units unit_names r2") auto
  define r4 where
    "r4 = (case r3 of [] \<Rightarrow> r3 | c # cs \<Rightarrow> if toLowerChar c = CHR ''s'' then cs else r3)"
  define w2 where "w2 = takeWhile isWhiteSpace r4"
  define r5 where "r5 = dropWhile isWhiteSpace r4"
  have eq2: "regex_here s = (if w2 \<noteq> [] \<and> startsWithCI r5 ''ago'' then Some (d0, u0) else None)"
    unfolding eq1 alt w2_def r5_def r4_def by (simp add: Let_def)
  have c2: "w2 \<noteq> [] \<and> startsWithCI r5 ''ago''"
  proof (rule ccontr)
    assume "\<not> (w2 \<noteq> [] \<and> startsWithCI r5 ''ago'')"
    then have "regex_here s = None" unfolding eq2 by simp
    with assms show False by simp
  qed
  with eq2 assms have res: "ds = d0" "uw = u0" by simp_all
  obtain sf where sf: "r3 = sf @ r4" "sf = [] \<or> toLowerCase sf = ''s''"
  proof (cases r3)
    case Nil
    then show ?thesis using that [of "[]"] by (simp add: r4_def)
  next
    case (Cons c cs)
    show ?thesis
    proof (cases "toLowerChar c = CHR ''s''")
      case True
      with Cons show ?thesis using that [of "[c]"] by (simp add: r4_def toLowerCase_def)
    next
      case False
      with Cons show ?thesis using that [of "[]"] by (simp add: r4_def)
    qed
  qed
  define ag where "ag = take (length ''ago'') r5"
  define post where "post = drop (length ''ago'') r5"
  have ag: "toLowerCase ag = ''ago''" "r5 = ag @ post"
    using c2 unfolding ag_def post_def startsWithCI_iff by simp_all
  have u: "r2 = u0 @ r3" "toLowerCase u0 \<in> set unit_names"
    using alt_units_sound [OF alt] by simp_all
  have parts: "s = d0 @ r1" "r1 = w1 @ r2" "r4 = w2 @ r5"
    by (simp_all add: d0_def r1_def w1_def r2_def w2_def r5_def)
  have s: "s = (d0 @ w1 @ u0 @ sf @ w2 @ ag) @ post"
    using parts u(1) sf(1) ag(2) by simp
  have dig: "list_all isDigit d0" and ws1: "list_all isWhiteSpace w1"
    and ws2: "list_all isWhiteSpace w2"
    unfolding d0_def w1_def w2_def list_all_iff by (blast dest: set_takeWhileD)+
  have "is_match (d0 @ w1 @ u0 @ sf @ w2 @ ag) (parseInt d0) (toLowerCase u0)"
    unfolding is_match_def
    using c1 c2 u(2) sf(2) ag(1) dig ws1 ws2 by blast
  with s res show ?thesis by blast
qed

lemma regex_here_Nil [simp]: "regex_here [] = None"
  by (simp add: regex_here_def)

lemma regex_match_Some:
  "regex_match s = Some r \<longleftrightarrow>
     (\<exists>k \<le> length s. regex_here (drop k s) = Some r \<and> (\<forall>j < k. regex_here (drop j s) = None))"
proof (induction s)
  case Nil
  show ?case by simp
next
  case (Cons c cs)
  show ?case
  proof (cases "regex_here (c # cs)")
    case (Some m)
    have "(\<exists>k \<le> length (c # cs). regex_here (drop k (c # cs)) = Some r \<and>
            (\<forall>j < k. regex_here (drop j (c # cs)) = None)) \<longleftrightarrow> m = r"
    proof
      assume "\<exists>k \<le> length (c # cs). regex_here (drop k (c # cs)) = Some r \<and>
            (\<forall>j < k. regex_here (drop j (c # cs)) = None)"
      then obtain k where k: "regex_here (drop k (c # cs)) = Some r"
        "\<forall>j < k. regex_here (drop j (c # cs)) = None" by blast
      have "k = 0"
      proof (rule ccontr)
        assume "k \<noteq> 0"
        then have "regex_here (drop 0 (c # cs)) = None" using k(2) by blast
        with Some show False by simp
      qed
      with k(1) Some show "m = r" by simp
    next
      assume "m = r"
      with Some have "regex_here (drop 0 (c # cs)) = Some r \<and>
            (\<forall>j < 0. regex_here (drop j (c # cs)) = None)" by simp
      then show "\<exists>k \<le> length (c # cs). regex_here (drop k (c # cs)) = Some r \<and>
            (\<forall>j < k. regex_here (drop j (c # cs)) = None)" by blast
    qed
    with Some show ?thesis by simp
  next
    case None
    have "(\<exists>k \<le> length (c # cs). regex_here (drop k (c # cs)) = Some r \<and>
            (\<forall>j < k. regex_here (drop j (c # cs)) = None)) \<longleftrightarrow>
          (\<exists>k \<le> length cs. regex_here (drop k cs) = Some r \<and>
            (\<forall>j < k. regex_here (drop j cs) = None))"
    proof
      assume "\<exists>k \<le> length (c # cs). regex_here (drop k (c # cs)) = Some r \<and>
            (\<forall>j < k. regex_here (drop j (c # cs)) = None)"
      then obtain k where k: "k \<le> length (c # cs)" "regex_here (drop k (c # cs)) = Some r"
        "\<forall>j < k. regex_here (drop j (c # cs)) = None" by blast
      with None obtain k' where k': "k = Suc k'"
        by (cases k) auto
      have "\<forall>j < k'. regex_here (drop j cs) = None"
      proof (intro allI impI)
        fix j assume "j < k'"
        then have "Suc j < k" by (simp add: k')
        with k(3) have "regex_here (drop (Suc j) (c # cs)) = None" by blast
        then show "regex_here (drop j cs) = None" by simp
      qed
      with k k' show "\<exists>k \<le> length cs. regex_here (drop k cs) = Some r \<and>
            (\<forall>j < k. regex_here (drop j cs) = None)"
        by auto
    next
      assume "\<exists>k \<le> length cs. regex_here (drop k cs) = Some r \<and>
            (\<forall>j < k. regex_here (drop j cs) = None)"
      then obtain k where k: "k \<le> length cs" "regex_here (drop k cs) = Some r"
        "\<forall>j < k. regex_here (drop j cs) = None" by blast
      have "\<forall>j < Suc k. regex_here (drop j (c # cs)) = None"
      proof (intro allI impI)
        fix j assume j: "j < Suc k"
        show "regex_here (drop j (c # cs)) = None"
        proof (cases j)
          case 0
          with None show ?thesis by simp
        next
          case (Suc i)
          with j k(3) show ?thesis by simp
        qed
      qed
      with k show "\<exists>k \<le> length (c # cs). regex_here (drop k (c # cs)) = Some r \<and>
            (\<forall>j < k. regex_here (drop j (c # cs)) = None)"
        by (intro exI [of _ "Suc k"]) simp
    qed
    with None Cons.IH show ?thesis by simp
  qed
qed



lemma regex_match_None: "regex_match s = None \<longleftrightarrow> (\<forall>k. regex_here (drop k s) = None)"
proof (induction s)
  case Nil
  show ?case by simp
next
  case (Cons c cs)
  have "(\<forall>k. regex_here (drop k (c # cs)) = None) \<longleftrightarrow>
        regex_here (c # cs) = None \<and> (\<forall>k. regex_here (drop k cs) = None)"
  proof
    assume a: "\<forall>k. regex_here (drop k (c # cs)) = None"
    from a [rule_format, of 0] have "regex_here (c # cs) = None" by simp
    moreover have "regex_here (drop k cs) = None" for k
      using a [rule_format, of "Suc k"] by simp
    ultimately show "regex_here (c # cs) = None \<and> (\<forall>k. regex_here (drop k cs) = None)"
      by blast
  next
    assume a: "regex_here (c # cs) = None \<and> (\<forall>k. regex_here (drop k cs) = None)"
    show "\<forall>k. regex_here (drop k (c # cs)) = None"
    proof
      fix k show "regex_here (drop k (c # cs)) = None"
        using a by (cases k) simp_all
    qed
  qed
  with Cons.IH show ?case
    by (cases "regex_here (c # cs)") simp_all
qed

lemma occurs_at_here:
  "occurs_at s k v u \<longleftrightarrow>
     k \<le> length s \<and> (\<exists>ds uw. regex_here (drop k s) = Some (ds, uw) \<and> parseInt ds = v \<and> toLowerCase uw = u)"
proof
  assume "occurs_at s k v u"
  then obtain m post where "k \<le> length s" "drop k s = m @ post" "is_match m v u"
    unfolding occurs_at_def by blast
  with regex_here_complete [of m v u post]
  show "k \<le> length s \<and> (\<exists>ds uw. regex_here (drop k s) = Some (ds, uw) \<and> parseInt ds = v \<and> toLowerCase uw = u)"
    by simp
next
  assume "k \<le> length s \<and> (\<exists>ds uw. regex_here (drop k s) = Some (ds, uw) \<and> parseInt ds = v \<and> toLowerCase uw = u)"
  then obtain ds uw where k: "k \<le> length s" and r: "regex_here (drop k s) = Some (ds, uw)"
    and v: "parseInt ds = v" "toLowerCase uw = u" by blast
  from regex_here_sound [OF r] v k show "occurs_at s k v u"
    unfolding occurs_at_def by blast
qed

lemma regex_match_first:
  "regex_match s = Some (ds, uw) \<Longrightarrow> occurs_first s (parseInt ds) (toLowerCase uw)"
proof -
  assume "regex_match s = Some (ds, uw)"
  then obtain k where k: "k \<le> length s" "regex_here (drop k s) = Some (ds, uw)"
    "\<forall>j < k. regex_here (drop j s) = None"
    unfolding regex_match_Some by blast
  have "occurs_at s k (parseInt ds) (toLowerCase uw)"
    using k(1,2) by (auto simp: occurs_at_here)
  moreover have "\<not> occurs_at s j v' u'" if "j < k" for j v' u'
    using k(3) that by (auto simp: occurs_at_here)
  ultimately show ?thesis
    unfolding occurs_first_def by blast
qed

lemma first_regex_match:
  assumes "occurs_first s v u"
  shows "\<exists>ds uw. regex_match s = Some (ds, uw) \<and> parseInt ds = v \<and> toLowerCase uw = u"
proof -
  from assms obtain k where k: "occurs_at s k v u"
    and least: "\<And>j v' u'. j < k \<Longrightarrow> \<not> occurs_at s j v' u'"
    unfolding occurs_first_def by blast
  from k obtain ds uw where r: "k \<le> length s" "regex_here (drop k s) = Some (ds, uw)"
    "parseInt ds = v" "toLowerCase uw = u"
    unfolding occurs_at_here by blast
  have "regex_here (drop j s) = None" if "j < k" for j
  proof (cases "regex_here (drop j s)")
    case None
    then show ?thesis .
  next
    case (Some p)
    obtain ds' uw' where "p = (ds', uw')" by (cases p)
    with Some that r(1) have "occurs_at s j (parseInt ds') (toLowerCase uw')"
      by (simp add: occurs_at_here)
    with least [OF that] show ?thesis by blast
  qed
  with r(1,2) have "regex_match s = Some (ds, uw)"
    unfolding regex_match_Some by blast
  with r(3,4) show ?thesis by blast
qed

lemma no_occurrence: "regex_match s = None \<longleftrightarrow> (\<forall>k v u. \<not> occurs_at s k v u)"
proof
  assume "regex_match s = None"
  then show "\<forall>k v u. \<not> occurs_at s k v u"
    by (simp add: regex_match_None occurs_at_here)
next
  assume a: "\<forall>k v u. \<not> occurs_at s k v u"
  have "regex_here (drop k s) = None" for k
  proof (cases "k \<le> length s")
    case False
    then show ?thesis by simp
  next
    case True
    show ?thesis
    proof (cases "regex_here (drop k s)")
      case None
      then show ?thesis .
    next
      case (Some p)
      obtain ds uw where "p = (ds, uw)" by (cases p)
      with Some True have "occurs_at s k (parseInt ds) (toLowerCase uw)"
        by (simp add: occurs_at_here)
      with a show ?thesis by blast
    qed
  qed
  then show "regex_match s = None"
    by (simp add: regex_match_None)
qed

lemma occurs_at_embed:
  assumes "occurs_at t k v u"
  shows "occurs_at (pre @ t @ post) (length pre + k) v u"
proof -
  from assms obtain m p where "k \<le> length t" "drop k t = m @ p" "is_match m v u"
    unfolding occurs_at_def by blast
  then have "length pre + k \<le> length (pre @ t @ post)"
    "drop (length pre + k) (pre @ t @ post) = m @ (p @ post)" "is_match m v u"
    by simp_all
  then show ?thesis
    unfolding occurs_at_def by blast
qed

lemma split_lines_first: "\<exists>l ls post. split_lines s = l # ls \<and> s = l @ post"
proof (induction s)
  case Nil
  show ?case by simp
next
  case (Cons c cs)
  then obtain l ls post where "split_lines cs = l # ls" "cs = l @ post" by blast
  then show ?case by (cases "c = CHR 0x0A") simp_all
qed

lemma split_lines_sublist: "line \<in> set (split_lines s) \<Longrightarrow> sublist line s"
proof (induction s arbitrary: line)
  case Nil
  then show ?case by simp
next
  case (Cons c cs)
  obtain l ls post where l: "split_lines cs = l # ls" "cs = l @ post"
    using split_lines_first [of cs] by blast
  show ?case
  proof (cases "c = CHR 0x0A")
    case True
    with Cons.prems have "line = [] \<or> line \<in> set (split_lines cs)" by simp
    then show ?thesis
    proof
      assume "line = []" then show ?thesis by simp
    next
      assume "line \<in> set (split_lines cs)"
      then have "sublist line cs" by (rule Cons.IH)
      then show ?thesis by (simp add: sublist_Cons_right)
    qed
  next
    case False
    with Cons.prems l have "line = c # l \<or> line \<in> set ls" by simp
    then show ?thesis
    proof
      assume "line = c # l"
      with l(2) have "c # cs = [] @ line @ post" by simp
      then show ?thesis unfolding sublist_def by blast
    next
      assume "line \<in> set ls"
      with l(1) have "sublist line cs" by (simp add: Cons.IH)
      then show ?thesis by (simp add: sublist_Cons_right)
    qed
  qed
qed

lemma trim_sublist: "sublist (trim s) s"
proof -
  define d where "d = dropWhile isWhiteSpace s"
  have "d = rev (takeWhile isWhiteSpace (rev d) @ dropWhile isWhiteSpace (rev d))"
    by simp
  also have "\<dots> = rev (dropWhile isWhiteSpace (rev d)) @ rev (takeWhile isWhiteSpace (rev d))"
    by (simp only: rev_append)
  finally have "d = trim s @ rev (takeWhile isWhiteSpace (rev d))"
    by (simp add: trim_def d_def)
  moreover have "s = takeWhile isWhiteSpace s @ d"
    by (simp add: d_def)
  ultimately have "s = takeWhile isWhiteSpace s @ trim s @ rev (takeWhile isWhiteSpace (rev d))"
    by simp
  then show ?thesis
    unfolding sublist_def by blast
qed

lemma occurs_at_sublist:
  "sublist t s \<Longrightarrow> occurs_at t k v u \<Longrightarrow> \<exists>k'. occurs_at s k' v u"
  unfolding sublist_def using occurs_at_embed by blast

lemma unit_duration: "u \<in> set unit_names \<Longrightarrow> \<exists>ms. msPerUnit u = Some ms"
  by (auto simp: unit_names_def msPerUnit_def)

lemma occurs_at_unit: "occurs_at s k v u \<Longrightarrow> u \<in> set unit_names"
  unfolding occurs_at_def is_match_def by blast


lemma parse_found:
  assumes "find (\<lambda>l. includes_str l ''ago'') (split_lines frag) = Some line"
  shows "parseRelativeTime now frag =
     (case regex_match (trim line) of
        None \<Rightarrow> None
      | Some (m1, m2) \<Rightarrow>
          (case msPerUnit (toLowerCase m2) of
             None \<Rightarrow> Some InvalidDate
           | Some ms \<Rightarrow> Some (newDate (now - int (parseInt m1) * ms))))"
  using assms by (simp add: parseRelativeTime_def Let_def split: option.splits)

lemma parse_not_found:
  assumes "find (\<lambda>l. includes_str l ''ago'') (split_lines frag) = None"
  shows "parseRelativeTime now frag = None"
  using assms by (simp add: parseRelativeTime_def Let_def)

lemma parse_first:
  assumes f: "find (\<lambda>l. includes_str l ''ago'') (split_lines frag) = Some line"
    and o: "occurs_first (trim line) v u" and ms: "msPerUnit u = Some ms"
  shows "parseRelativeTime now frag = Some (newDate (now - int v * ms))"
proof -
  from first_regex_match [OF o] obtain ds uw where
    "regex_match (trim line) = Some (ds, uw)" "parseInt ds = v" "toLowerCase uw = u" by blast
  with ms show ?thesis by (simp add: parse_found [OF f])
qed

lemma parse_Some:
  assumes "parseRelativeTime now frag = Some r"
  shows "\<exists>line v u ms. find (\<lambda>l. includes_str l ''ago'') (split_lines frag) = Some line \<and>
     occurs_first (trim line) v u \<and> msPerUnit u = Some ms \<and> r = newDate (now - int v * ms)"
proof (cases "find (\<lambda>l. includes_str l ''ago'') (split_lines frag)")
  case None
  with assms show ?thesis by (simp add: parse_not_found)
next
  case (Some line)
  show ?thesis
  proof (cases "regex_match (trim line)")
    case None
    with assms Some show ?thesis by (simp add: parse_found)
  next
    case m: (Some p)
    obtain ds uw where p: "p = (ds, uw)" by (cases p)
    have o: "occurs_first (trim line) (parseInt ds) (toLowerCase uw)"
      using m p by (simp add: regex_match_first)
    then have "toLowerCase uw \<in> set unit_names"
      unfolding occurs_first_def using occurs_at_unit by blast
    then obtain ms where ms: "msPerUnit (toLowerCase uw) = Some ms"
      using unit_duration by blast
    with assms Some m p have "r = newDate (now - int (parseInt ds) * ms)"
      by (simp add: parse_found)
    with Some o ms show ?thesis by blast
  qed
qed

lemma parse_no_occurrence:
  assumes "\<forall>k v u. \<not> occurs_at frag k v u"
  shows "parseRelativeTime now frag = None"
proof (cases "find (\<lambda>l. includes_str l ''ago'') (split_lines frag)")
  case None
  then show ?thesis by (rule parse_not_found)
next
  case (Some line)
  then have "line \<in> set (split_lines frag)"
    by (auto simp: find_Some_iff)
  then have sub: "sublist (trim line) frag"
    using trim_sublist [of line] split_lines_sublist [of line frag]
    by (metis sublist_order.order_trans)
  have "regex_match (trim line) = None"
    unfolding no_occurrence using occurs_at_sublist [OF sub] assms by blast
  then show ?thesis by (simp add: parse_found [OF Some])
qed

lemma ago_line: "(\<lambda>l. includes_str l ''ago'') = sublist ''ago''"
  by (rule ext) (rule includes_str_sublist)

section \<open>Recency from the relative-time text (claim C7)\<close>

text \<open>
  Claim C7, amended. The recency of a text fragment is read from the first line of
  the fragment that contains \<open>ago\<close> in lower case (\<^const>\<open>sublist\<close>), trimmed. When an occurrence
  of the pattern stands in that line, the recency is the clock reading minus the
  value times the duration of the unit, for the leftmost occurrence; the date is
  invalid when that instant is beyond the range of \<open>Date\<close>. Every recency the
  function returns arises in this way, and a fragment in which the pattern occurs
  nowhere has no recency. A minute is 60 seconds, an hour 3600, a day 24 times
  3600 and a week 7 times 24 times 3600; \<open>1 week ago\<close> is the clock reading
  minus 7 times 24 times 3600 seconds, \<open>59 minutes ago\<close> uses 59 minutes and
  \<open>1 hour ago\<close> uses 60 minutes.
\<close>

theorem relative_time_pattern:
  "(\<forall>line v u ms.
      find (\<lambda>l. sublist ''ago'' l) (split_lines frag) = Some line \<and>
      occurs_first (trim line) v u \<and> msPerUnit u = Some ms \<longrightarrow>
      parseRelativeTime now frag = Some (newDate (now - int v * ms))) \<and>
   (\<forall>r. parseRelativeTime now frag = Some r \<longrightarrow>
      (\<exists>line v u ms.
         find (\<lambda>l. sublist ''ago'' l) (split_lines frag) = Some line \<and>
         occurs_first (trim line) v u \<and> msPerUnit u = Some ms \<and>
         r = newDate (now - int v * ms))) \<and>
   ((\<forall>k v u. \<not> occurs_at frag k v u) \<longrightarrow> parseRelativeTime now frag = None) \<and>
   msPerUnit ''minute'' = Some (60 * 1000) \<and>
   msPerUnit ''hour'' = Some (3600 * 1000) \<and>
   msPerUnit ''day'' = Some (24 * 3600 * 1000) \<and>
   msPerUnit ''week'' = Some (7 * 24 * 3600 * 1000) \<and>
   parseRelativeTime now ''1 week ago'' = Some (newDate (now - 7 * 24 * 3600 * 1000)) \<and>
   parseRelativeTime now ''59 minutes ago'' = Some (newDate (now - 59 * 60 * 1000)) \<and>
   parseRelativeTime now ''1 hour ago'' = Some (newDate (now - 60 * 60 * 1000))"
proof (intro conjI allI impI)
  fix line v u ms
  assume "find (\<lambda>l. sublist ''ago'' l) (split_lines frag) = Some line \<and>
      occurs_first (trim line) v u \<and> msPerUnit u = Some ms"
  then show "parseRelativeTime now frag = Some (newDate (now - int v * ms))"
    using parse_first [unfolded ago_line] by blast
next
  fix r assume "parseRelativeTime now frag = Some r"
  then show "\<exists>line v u ms.
         find (\<lambda>l. sublist ''ago'' l) (split_lines frag) = Some line \<and>
         occurs_first (trim line) v u \<and> msPerUnit u = Some ms \<and>
         r = newDate (now - int v * ms)"
    by (rule parse_Some [unfolded ago_line])
next
  assume "\<forall>k v u. \<not> occurs_at frag k v u"
  then show "parseRelativeTime now frag = None"
    by (rule parse_no_occurrence)
next
  show "msPerUnit ''minute'' = Some (60 * 1000)" by (simp add: msPerUnit_def)
  show "msPerUnit ''hour'' = Some (3600 * 1000)" by (simp add: msPerUnit_def)
  show "msPerUnit ''day'' = Some (24 * 3600 * 1000)" by (simp add: msPerUnit_def)
  show "msPerUnit ''week'' = Some (7 * 24 * 3600 * 1000)" by (simp add: msPerUnit_def)
  show "parseRelativeTime now ''1 week ago'' = Some (newDate (now - 7 * 24 * 3600 * 1000))"
    by (simp add: eval_parse)
  show "parseRelativeTime now ''59 minutes ago'' = Some (newDate (now - 59 * 60 * 1000))"
    by (simp add: eval_parse)
  show "parseRelativeTime now ''1 hour ago'' = Some (newDate (now - 60 * 60 * 1000))"
    by (simp add: eval_parse)
qed

text \<open>
  The pattern occurs in \<open>5 minutes AGO\<close>, and in the second line of a fragment
  whose first line is \<open>Chicago\<close>; neither fragment has a recency.
\<close>

theorem relative_time_pattern_counterexample:
  "occurs_at ''5 minutes AGO'' 0 5 ''minute'' \<and>
   parseRelativeTime 0 ''5 minutes AGO'' = None \<and>
   occurs_at (''Chicago'' @ [CHR 0x0A] @ ''5 minutes ago'') 8 5 ''minute'' \<and>
   parseRelativeTime 0 (''Chicago'' @ [CHR 0x0A] @ ''5 minutes ago'') = None"
proof (intro conjI)
  show "occurs_at ''5 minutes AGO'' 0 5 ''minute''"
    unfolding occurs_at_here by (simp add: eval_here)
  show "parseRelativeTime 0 ''5 minutes AGO'' = None"
    by (simp add: eval_parse)
  show "occurs_at (''Chicago'' @ [CHR 0x0A] @ ''5 minutes ago'') 8 5 ''minute''"
    unfolding occurs_at_here by (simp add: eval_here)
  show "parseRelativeTime 0 (''Chicago'' @ [CHR 0x0A] @ ''5 minutes ago'') = None"
    by (simp add: eval_parse)
qed

theorem relative_time_pattern_witness:
  "parseRelativeTime 1793548800000 ''Posted 3 Days ago'' = Some (ValidDate 1793289600000) \<and>
   parseRelativeTime 1793548800000 ''Promoted'' = None"
proof -
  have f: "find (\<lambda>l. sublist ''ago'' l) (split_lines ''Posted 3 Days ago'') =
      Some ''Posted 3 Days ago''"
    by (simp flip: ago_line)
  have "regex_match (trim ''Posted 3 Days ago'') = Some (''3'', ''Day'')"
    by (simp add: trim_def eval_here)
  from regex_match_first [OF this]
  have o: "occurs_first (trim ''Posted 3 Days ago'') 3 ''day''"
    by (simp add: eval_here)
  have ms: "msPerUnit ''day'' = Some 86400000"
    by (simp add: msPerUnit_def)
  have "regex_match ''Promoted'' = None"
    by (simp add: eval_here)
  then have n: "\<forall>k v u. \<not> occurs_at ''Promoted'' k v u"
    by (rule no_occurrence [THEN iffD1])
  from relative_time_pattern [of "''Posted 3 Days ago''" 1793548800000] f o ms
  have "parseRelativeTime 1793548800000 ''Posted 3 Days ago'' =
      Some (newDate (1793548800000 - int 3 * 86400000))"
    by blast
  moreover from relative_time_pattern [of "''Promoted''" 1793548800000] n
  have "parseRelativeTime 1793548800000 ''Promoted'' = None"
    by blast
  ultimately show ?thesis
    by (simp add: newDate_def)
qed

section \<open>The sort and the reordering\<close>

lemma array_sort_Nil [simp]: "array_sort cmp [] = []"
  by (simp add: array_sort_def)

lemma array_sort_Cons [simp]:
  "array_sort cmp (x # xs) = insert_sorted cmp x (array_sort cmp xs)"
  by (simp add: array_sort_def)

lemma set_insert_sorted [simp]: "set (insert_sorted cmp x ys) = insert x (set ys)"
  by (induction ys) auto

lemma set_array_sort [simp]: "set (array_sort cmp xs) = set xs"
  by (induction xs) simp_all

lemma distinct_insert_sorted [simp]:
  "distinct (insert_sorted cmp x ys) \<longleftrightarrow> x \<notin> set ys \<and> distinct ys"
  by (induction ys) auto

lemma distinct_array_sort [simp]: "distinct (array_sort cmp xs) = distinct xs"
  by (induction xs) simp_all

lemma length_insert_sorted [simp]: "length (insert_sorted cmp x ys) = Suc (length ys)"
  by (induction ys) auto

lemma length_array_sort [simp]: "length (array_sort cmp xs) = length xs"
  by (induction xs) simp_all

lemma filter_insert_sorted_out:
  "\<not> P x \<Longrightarrow> filter P (insert_sorted cmp x ys) = filter P ys"
  by (induction ys) auto

lemma filter_insert_sorted_in:
  "P x \<Longrightarrow> (\<And>y. y \<in> set ys \<Longrightarrow> P y \<Longrightarrow> cmp x y \<le> 0) \<Longrightarrow>
   filter P (insert_sorted cmp x ys) = x # filter P ys"
  by (induction ys) auto

lemma array_sort_stable:
  "(\<And>x y. x \<in> set xs \<Longrightarrow> y \<in> set xs \<Longrightarrow> P x \<Longrightarrow> P y \<Longrightarrow> cmp x y \<le> 0) \<Longrightarrow>
   filter P (array_sort cmp xs) = filter P xs"
proof (induction xs)
  case Nil
  show ?case by simp
next
  case (Cons x xs)
  have IH: "filter P (array_sort cmp xs) = filter P xs"
    by (rule Cons.IH) (simp add: Cons.prems)
  show ?case
  proof (cases "P x")
    case True
    have "filter P (insert_sorted cmp x (array_sort cmp xs)) = x # filter P (array_sort cmp xs)"
      by (rule filter_insert_sorted_in) (simp_all add: Cons.prems True)
    with True IH show ?thesis by simp
  next
    case False
    with IH show ?thesis by (simp add: filter_insert_sorted_out)
  qed
qed

lemma array_sort_ties: "(\<And>x y. cmp x y \<le> 0) \<Longrightarrow> array_sort cmp xs = xs"
  using array_sort_stable [of xs "\<lambda>x. True" cmp] by simp

lemma fold_appendChild_gen:
  "distinct xs \<Longrightarrow> distinct cs \<Longrightarrow>
   fold appendChild xs cs = filter (\<lambda>c. c \<notin> set xs) cs @ xs"
proof (induction xs arbitrary: cs)
  case Nil
  show ?case by simp
next
  case (Cons x xs)
  have d: "distinct (remove1 x cs @ [x])"
    using Cons.prems by simp
  have r: "remove1 x cs = filter (\<lambda>c. c \<noteq> x) cs"
    using Cons.prems by (simp add: distinct_remove1_removeAll removeAll_filter_not_eq) metis
  have "fold appendChild (x # xs) cs = fold appendChild xs (remove1 x cs @ [x])"
    by (simp add: appendChild_def)
  also have "\<dots> = filter (\<lambda>c. c \<notin> set xs) (remove1 x cs @ [x]) @ xs"
    using Cons.IH [OF _ d] Cons.prems by simp
  also have "\<dots> = filter (\<lambda>c. c \<notin> set (x # xs)) cs @ x # xs"
    using Cons.prems by (simp add: r conj_commute)
  finally show ?case .
qed

lemma fold_appendChild_all:
  "distinct cs \<Longrightarrow> distinct xs \<Longrightarrow> set cs \<subseteq> set xs \<Longrightarrow> fold appendChild xs cs = xs"
  by (simp add: fold_appendChild_gen subset_iff)



section \<open>Lemmas about sortJobs\<close>






lemma cmp_policy_update [simp]:
  "cmp_policy now (w\<lparr> originalOrder := l \<rparr>) = cmp_policy now w"
  "cmp_policy now (w\<lparr> cards := cs \<rparr>) = cmp_policy now w"
  by (rule ext, rule ext, simp add: cmp_policy_def)+

lemma captureOriginalOrder_frame [simp]:
  "settings (captureOriginalOrder w) = settings w"
  "cards (captureOriginalOrder w) = cards w"
  "stateEl (captureOriginalOrder w) = stateEl w"
  "timeEl (captureOriginalOrder w) = timeEl w"
  "classList (captureOriginalOrder w) = classList w"
  "sent (captureOriginalOrder w) = sent w"
  "pending (captureOriginalOrder w) = pending w"
  by (simp_all add: captureOriginalOrder_def)

lemma cmp_policy_capture [simp]: "cmp_policy now (captureOriginalOrder w) = cmp_policy now w"
  by (simp add: captureOriginalOrder_def)

lemma ledger_ready_frame [simp]:
  "settings (ledger_ready w) = settings w"
  "cards (ledger_ready w) = cards w"
  "stateEl (ledger_ready w) = stateEl w"
  "timeEl (ledger_ready w) = timeEl w"
  "classList (ledger_ready w) = classList w"
  "sent (ledger_ready w) = sent w"
  "pending (ledger_ready w) = pending w"
  "cmp_policy now (ledger_ready w) = cmp_policy now w"
  by (simp_all add: ledger_ready_def)

text \<open>The order of the cards after \<open>sortJobs\<close>, for a page whose cards are distinct.\<close>

lemma cards_sortJobs:
  assumes "distinct (cards w)"
  shows "cards (sortJobs now w) =
           (if sortBy (settings w) = ''recent'' then rev (array_sort (active_cmp now w) (cards w))
            else array_sort (active_cmp now w) (cards w))"
proof (cases "cards w = []")
  case True
  then show ?thesis by (simp add: sortJobs_def)
next
  case False
  have app: "fold appendChild xs (cards w) = xs" if "distinct xs" "set xs = set (cards w)" for xs
    using assms that by (simp add: fold_appendChild_all)
  show ?thesis
    using False assms
    by (simp add: sortJobs_def Let_def active_cmp_def app flip: ledger_ready_def)
qed

lemma frame_sortJobs [simp]:
  "settings (sortJobs now w) = settings w"
  "stateEl (sortJobs now w) = stateEl w"
  "timeEl (sortJobs now w) = timeEl w"
  "classList (sortJobs now w) = classList w"
  "sent (sortJobs now w) = sent w"
  "pending (sortJobs now w) = pending w"
  by (simp_all add: sortJobs_def Let_def)

lemma originalOrder_sortJobs:
  "originalOrder (sortJobs now w) =
     (if cards w = [] then originalOrder w else originalOrder (ledger_ready w))"
  by (simp add: sortJobs_def Let_def ledger_ready_def)

lemma set_cards_sortJobs: "distinct (cards w) \<Longrightarrow> set (cards (sortJobs now w)) = set (cards w)"
  by (simp add: cards_sortJobs)

lemma distinct_cards_sortJobs: "distinct (cards w) \<Longrightarrow> distinct (cards (sortJobs now w))"
  by (simp add: cards_sortJobs)

lemmas eval_sort =
  sortJobs_def captureOriginalOrder_def cmp_policy_def cmp_default_def getJobStatus_def
  appendChild_def Let_def enumerate_eq_zip

lemma capture_other:
  "x \<notin> set cs \<Longrightarrow>
   map_of (fold (\<lambda>(index, job) m. AList.update job index m) (enumerate n cs) m) x = map_of m x"
  by (induction cs arbitrary: n m) (auto simp: update_conv')

lemma capture_index:
  "distinct cs \<Longrightarrow> i < length cs \<Longrightarrow>
   map_of (fold (\<lambda>(index, job) m. AList.update job index m) (enumerate n cs) m) (cs ! i) = Some (n + i)"
proof (induction cs arbitrary: n m i)
  case Nil
  then show ?case by simp
next
  case (Cons c cs)
  show ?case
  proof (cases i)
    case 0
    then show ?thesis
      using Cons.prems by (simp add: capture_other update_conv')
  next
    case (Suc j)
    then show ?thesis
      using Cons.prems Cons.IH [of j "Suc n" "AList.update c n m"] by simp
  qed
qed

lemma record_batches_ledger:
  "originalOrder w \<noteq> [] \<Longrightarrow> originalOrder (record_batches now bs w) = originalOrder w"
proof (induction bs arbitrary: w)
  case Nil
  show ?case by (simp add: record_batches_def)
next
  case (Cons b bs)
  have "originalOrder (sortJobs now (discover b w)) = originalOrder w"
    using Cons.prems by (simp add: originalOrder_sortJobs ledger_ready_def discover_def)
  with Cons.IH [of "sortJobs now (discover b w)"] Cons.prems show ?case
    by (simp add: record_batches_def)
qed


section \<open>The order under the policy recent (claim C1)\<close>




section \<open>Ties under the four policies (claim C2)\<close>



lemma tie_world_recent: "cards (sortJobs 0 (tie_world ''recent'')) = [1, 0]"
  by (simp add: tie_world_def eval_sort)




section \<open>A policy outside the four (claim C5)\<close>

text \<open>
  Claim C5, amended. Under a policy value that is none of \<open>default\<close>,
  \<open>recent\<close>, \<open>viewed-first\<close>, \<open>viewed-last\<close> the comparator returns zero for
  every pair and \<open>sortJobs\<close> leaves the cards in the order they have, which need
  not be the order of the ledger. The timer callback gives the same order for such
  a value as for \<open>default\<close>, since under \<open>default\<close> it does not sort at all.
\<close>

theorem unknown_policy_keeps_order:
  fixes w :: "'a world"
  assumes "distinct (cards w)"
    and "sortBy (settings w) \<notin> {''default'', ''recent'', ''viewed-first'', ''viewed-last''}"
  shows "cards (sortJobs now w) = cards w \<and>
         cards (reprocess now w) = cards (reprocess now (w\<lparr> settings := (settings w)\<lparr> sortBy := ''default'' \<rparr> \<rparr>))"
proof -
  have s: "cards (sortJobs now v) = cards v"
    if "distinct (cards v)" "sortBy (settings v) = sortBy (settings w)" for v :: "'a world"
  proof -
    have "active_cmp now v x y \<le> 0" for x y
      using assms(2) that(2) by (simp add: active_cmp_def cmp_policy_def)
    then have "array_sort (active_cmp now v) (cards v) = cards v"
      by (rule array_sort_ties)
    then show ?thesis
      using assms(2) that by (simp add: cards_sortJobs)
  qed
  have "cards (sortJobs now (processJobs now w)) = cards w"
    using s [of "processJobs now w"] assms(1) by simp
  then show ?thesis
    using s [of w] assms by (simp add: reprocess_def Let_def)
qed

text \<open>
  With the ledger \<open>0, 1\<close> and the cards standing as \<open>1, 0\<close>, an unknown policy
  keeps \<open>1, 0\<close> where \<open>default\<close> restores \<open>0, 1\<close>.
\<close>

theorem unknown_policy_counterexample:
  "cards (sortJobs 0 (shuffled_world ''newest'')) = [1, 0] \<and>
   cards (sortJobs 0 (shuffled_world ''default'')) = [0, 1]"
  by (simp add: shuffled_world_def eval_sort)

theorem unknown_policy_keeps_order_witness:
  "cards (sortJobs 0 (shuffled_world ''newest'')) = [1, 0]"
proof -
  have "distinct (cards (shuffled_world ''newest''))"
    by (simp add: shuffled_world_def)
  moreover have "sortBy (settings (shuffled_world ''newest'')) \<notin>
      {''default'', ''recent'', ''viewed-first'', ''viewed-last''}"
    by (simp add: shuffled_world_def)
  ultimately have "cards (sortJobs 0 (shuffled_world ''newest'')) = cards (shuffled_world ''newest'')"
    using unknown_policy_keeps_order [of "shuffled_world ''newest''" 0] by blast
  then show ?thesis by (simp add: shuffled_world_def)
qed

section \<open>The order ledger (claim C3)\<close>

text \<open>
  Claim C3, amended. The ledger is written once. A sort that finds it empty gives
  every card then in the document its document index, counted from zero, and
  records nothing else. Once the ledger is not empty no later batch changes it: a
  recorded card keeps its index, and a card discovered later receives no index.
\<close>

theorem ledger_written_once:
  "(originalOrder w \<noteq> [] \<longrightarrow>
      originalOrder (record_batches now batches w) = originalOrder w) \<and>
   (originalOrder w = [] \<and> distinct (cards w) \<longrightarrow>
      (\<forall>i < length (cards w). map_of (originalOrder (sortJobs now w)) (cards w ! i) = Some i) \<and>
      (\<forall>x. x \<notin> set (cards w) \<longrightarrow> map_of (originalOrder (sortJobs now w)) x = None))"
proof (intro conjI impI allI)
  assume "originalOrder w \<noteq> []"
  then show "originalOrder (record_batches now batches w) = originalOrder w"
    by (rule record_batches_ledger)
next
  fix i
  assume a: "originalOrder w = [] \<and> distinct (cards w)" and i: "i < length (cards w)"
  then have "cards w \<noteq> []" by auto
  with a i capture_index [of "cards w" i 0 "[]"]
  show "map_of (originalOrder (sortJobs now w)) (cards w ! i) = Some i"
    by (simp add: originalOrder_sortJobs ledger_ready_def captureOriginalOrder_def)
next
  fix x
  assume a: "originalOrder w = [] \<and> distinct (cards w)" and x: "x \<notin> set (cards w)"
  with capture_other [of x "cards w" 0 "[]"]
  show "map_of (originalOrder (sortJobs now w)) x = None"
    by (simp add: originalOrder_sortJobs ledger_ready_def captureOriginalOrder_def)
qed

text \<open>
  Cards 0 and 1 are recorded; card 2 arrives and the sort runs: card 2 has no
  index, where the claim gives it the next unused one.
\<close>

theorem ledger_counterexample:
  "map_of (originalOrder (shuffled_world ''viewed-first'')) 2 = None \<and>
   cards (discover [2] (shuffled_world ''viewed-first'')) = [1, 0, 2] \<and>
   map_of (originalOrder (sortJobs 0 (discover [2] (shuffled_world ''viewed-first'')))) 2 = None"
  by (simp add: discover_def shuffled_world_def eval_sort)

theorem ledger_written_once_witness:
  "originalOrder (record_batches 0 [[2], [3, 4]] (shuffled_world ''viewed-first'')) = [(0, 0), (1, 1)] \<and>
   map_of (originalOrder (sortJobs 0 (tie_world ''viewed-first''))) 1 = Some 1 \<and>
   map_of (originalOrder (sortJobs 0 (tie_world ''viewed-first''))) 7 = None"
proof -
  have a: "originalOrder (shuffled_world ''viewed-first'') = [(0, 0), (1, 1)]"
    by (simp add: shuffled_world_def)
  have b: "originalOrder (tie_world ''viewed-first'') = []" "cards (tie_world ''viewed-first'') = [0, 1]"
    by (simp_all add: tie_world_def)
  from ledger_written_once [of "shuffled_world ''viewed-first''" 0 "[[2], [3, 4]]"] a
  have 1: "originalOrder (record_batches 0 [[2], [3, 4]] (shuffled_world ''viewed-first'')) = [(0, 0), (1, 1)]"
    by simp
  from ledger_written_once [of "tie_world ''viewed-first''" 0 "[]"] b
  have 2: "(\<forall>i < 2. map_of (originalOrder (sortJobs 0 (tie_world ''viewed-first''))) ([0, 1] ! i) = Some i) \<and>
      (\<forall>x. x \<notin> {0, 1} \<longrightarrow> map_of (originalOrder (sortJobs 0 (tie_world ''viewed-first''))) x = None)"
    by simp
  from 2 have "map_of (originalOrder (sortJobs 0 (tie_world ''viewed-first''))) ([0, 1] ! 1) = Some 1"
    by (metis one_less_numeral_iff semiring_norm(76))
  moreover from 2 have "map_of (originalOrder (sortJobs 0 (tie_world ''viewed-first''))) 7 = None"
    by simp
  ultimately show ?thesis using 1 by simp
qed

section \<open>Lemmas about the observer and the timer\<close>



lemma reprocess_pending [simp]: "pending (reprocess now w) = pending w"
  by (simp add: reprocess_def Let_def)

lemma run_Nil [simp]: "run [] w = w"
  by (simp add: run_def)

lemma run_Cons [simp]: "run (e # evs) w = run evs (step e w)"
  by (simp add: run_def)

lemma run_append [simp]: "run (es @ fs) w = run fs (run es w)"
  by (simp add: run_def)

lemma observerCallback_frame [simp]:
  "sent (observerCallback ms w) = sent w"
  "pending (observerCallback ms w) = pending w + (if shouldProcess ms then 1 else 0)"
  by (simp_all add: observerCallback_def)



section \<open>The change reactor (claim C4)\<close>





section \<open>Responses to requests (claim C6)\<close>

text \<open>
  Claim C6, amended. The listener answers a request at most once. It sends one
  response, \<open>{success: true}\<close>, to \<open>applySettings\<close> with a payload, and one
  response, the counts, to \<open>getStats\<close>. It sends none to \<open>applySettings\<close>
  without a payload and none to a request of any other type.
\<close>

theorem responses_per_request:
  "(rtype request = ''applySettings'' \<and> rsettings request \<noteq> None \<longrightarrow>
      snd (onMessage now request w) =
        [\<lparr> success = Some True, rtotal = None, rviewed = None, rapplied = None \<rparr>]) \<and>
   (rtype request = ''getStats'' \<longrightarrow>
      length (snd (onMessage now request w)) = 1 \<and>
      rtotal (hd (snd (onMessage now request w))) = Some (length (cards w))) \<and>
   (rtype request = ''applySettings'' \<and> rsettings request = None \<longrightarrow>
      snd (onMessage now request w) = []) \<and>
   (rtype request \<noteq> ''applySettings'' \<and> rtype request \<noteq> ''getStats'' \<longrightarrow>
      snd (onMessage now request w) = [])"
  by (auto simp: onMessage_def Let_def split: option.splits)

text \<open>
  \<open>applySettings\<close> without a payload and a request of the type \<open>ping\<close> get no
  response.
\<close>

theorem responses_per_request_counterexample:
  "snd (onMessage 0 \<lparr> rtype = ''applySettings'', rsettings = None \<rparr> demo_world) = [] \<and>
   snd (onMessage 0 \<lparr> rtype = ''ping'', rsettings = None \<rparr> demo_world) = []"
  by (simp add: onMessage_def)

theorem responses_per_request_witness:
  "snd (onMessage 0 \<lparr> rtype = ''applySettings'',
       rsettings = Some \<lparr> sortBy = ''default'', appliedAction = ''dim'', highlightViewed = False \<rparr> \<rparr>
     demo_world) = [\<lparr> success = Some True, rtotal = None, rviewed = None, rapplied = None \<rparr>] \<and>
   length (snd (onMessage 0 \<lparr> rtype = ''getStats'', rsettings = None \<rparr> demo_world)) = 1 \<and>
   rtotal (hd (snd (onMessage 0 \<lparr> rtype = ''getStats'', rsettings = None \<rparr> demo_world))) = Some 4 \<and>
   snd (onMessage 0 \<lparr> rtype = ''applySettings'', rsettings = None \<rparr> demo_world) = [] \<and>
   snd (onMessage 0 \<lparr> rtype = ''refresh'', rsettings = None \<rparr> demo_world) = []"
  using responses_per_request [of "\<lparr> rtype = ''applySettings'',
       rsettings = Some \<lparr> sortBy = ''default'', appliedAction = ''dim'', highlightViewed = False \<rparr> \<rparr>" 0 demo_world]
    responses_per_request [of "\<lparr> rtype = ''getStats'', rsettings = None \<rparr>" 0 demo_world]
    responses_per_request [of "\<lparr> rtype = ''applySettings'', rsettings = None \<rparr>" 0 demo_world]
    responses_per_request [of "\<lparr> rtype = ''refresh'', rsettings = None \<rparr>" 0 demo_world]
  by simp

end
